theory Spec2Isabelle
  imports Main "HOL-Library.AList"
begin

section \<open>One-dimensional cellular automata: the model\<close>

text \<open>
  The source is \<^verbatim>\<open>cellular_automata.py\<close>: a helper \<^verbatim>\<open>binary\<close>, the class
  \<^verbatim>\<open>Rule\<close> and the class \<^verbatim>\<open>CellularAutomata\<close>. Python integers are \<^typ>\<open>int\<close>,
  tuples and lists of cells are \<^typ>\<open>int list\<close>, strings are \<^typ>\<open>string\<close>, the
  dictionary \<^verbatim>\<open>mapping\<close> is an association list in insertion order, and every
  exception is a value of the type \<open>error\<close>.

  The exponents \<^verbatim>\<open>digits\<close> and \<^verbatim>\<open>n\<close> are naturals: for a negative exponent
  Python's \<^verbatim>\<open>**\<close> leaves the integers (it returns a float), and that part of the
  language is not covered here.
\<close>

datatype error = AssertionError | KeyError | IndexError | ValueError | ZeroDivisionError

subsection \<open>Python primitives used by the source\<close>

text \<open>\<^verbatim>\<open>bin(k)\<close> for \<open>k \<ge> 0\<close>, without its prefix: the binary digits, \<^verbatim>\<open>"0"\<close> for zero.\<close>

fun bin_nat :: "nat \<Rightarrow> string" where
  "bin_nat k = (if k < 2 then [if k = 0 then CHR ''0'' else CHR ''1'']
                else bin_nat (k div 2) @ [if k mod 2 = 0 then CHR ''0'' else CHR ''1''])"

declare bin_nat.simps [simp del]

definition bin :: "int \<Rightarrow> string" where
  "bin k = (if k < 0 then ''-0b'' @ bin_nat (nat (- k)) else ''0b'' @ bin_nat (nat k))"

definition removeprefix :: "string \<Rightarrow> string \<Rightarrow> string" where
  "removeprefix p s = (if take (length p) s = p then drop (length p) s else s)"

text \<open>\<^verbatim>\<open>str.zfill\<close>: pad with zeros on the left up to the width, after a leading sign.\<close>

definition zfill :: "nat \<Rightarrow> string \<Rightarrow> string" where
  "zfill width s =
     (if width \<le> length s then s
      else (case s of
              [] \<Rightarrow> replicate width CHR ''0''
            | c # rest \<Rightarrow>
                if c = CHR ''+'' \<or> c = CHR ''-''
                then c # replicate (width - length s) CHR ''0'' @ rest
                else replicate (width - length s) CHR ''0'' @ s))"

text \<open>\<^verbatim>\<open>int(c)\<close> on a one-character string: the digit's value, \<^verbatim>\<open>ValueError\<close> otherwise.\<close>

definition int_of_char :: "char \<Rightarrow> error + int" where
  "int_of_char c =
     (case map_of (zip ''0123456789'' [0, 1, 2, 3, 4, 5, 6, 7, 8, 9]) c of
        None \<Rightarrow> Inl ValueError
      | Some d \<Rightarrow> Inr d)"

text \<open>A comprehension whose body may raise stops at the first exception.\<close>

fun map_result :: "('a \<Rightarrow> error + 'b) \<Rightarrow> 'a list \<Rightarrow> error + 'b list" where
  "map_result f [] = Inr []"
| "map_result f (x # xs) =
     (case f x of
        Inl e \<Rightarrow> Inl e
      | Inr y \<Rightarrow> (case map_result f xs of Inl e \<Rightarrow> Inl e | Inr ys \<Rightarrow> Inr (y # ys)))"

text \<open>\<^verbatim>\<open>range(k)\<close> and \<^verbatim>\<open>range(a, b)\<close>.\<close>

definition range1 :: "int \<Rightarrow> int list" where
  "range1 k = map int [0..<nat k]"

definition range2 :: "int \<Rightarrow> int \<Rightarrow> int list" where
  "range2 a b = [a..b - 1]"

text \<open>\<^verbatim>\<open>xs[k]\<close>: negative indices count from the end, out of range raises.\<close>

definition getitem :: "'a list \<Rightarrow> int \<Rightarrow> error + 'a" where
  "getitem xs k =
     (let len = int (length xs); j = (if k < 0 then len + k else k)
      in if 0 \<le> j \<and> j < len then Inr (xs ! nat j) else Inl IndexError)"

text \<open>\<^verbatim>\<open>xs[k] = v\<close>, with the same index rule.\<close>

definition setitem :: "'a list \<Rightarrow> int \<Rightarrow> 'a \<Rightarrow> error + 'a list" where
  "setitem xs k v =
     (let len = int (length xs); j = (if k < 0 then len + k else k)
      in if 0 \<le> j \<and> j < len then Inr (xs[nat j := v]) else Inl IndexError)"

text \<open>\<^verbatim>\<open>a % b\<close>: the sign of the result follows the divisor, as \<open>mod\<close> on \<^typ>\<open>int\<close> does.\<close>

definition py_mod :: "int \<Rightarrow> int \<Rightarrow> error + int" where
  "py_mod a b = (if b = 0 then Inl ZeroDivisionError else Inr (a mod b))"

subsection \<open>\<^verbatim>\<open>binary\<close>\<close>

definition binary :: "int \<Rightarrow> nat \<Rightarrow> error + int list" where
  "binary number digits =
     (if \<not> (0 \<le> number \<and> number < 2 ^ digits) then Inl AssertionError
      else let binary_str = zfill digits (removeprefix ''0b'' (bin number))
           in map_result int_of_char binary_str)"

subsection \<open>\<^verbatim>\<open>Rule\<close>\<close>

text \<open>
  The fields \<^verbatim>\<open>number\<close>, \<^verbatim>\<open>n\<close> and \<^verbatim>\<open>mapping\<close> carry the prefix \<open>rule_\<close>, so that
  \<open>n\<close> and \<open>number\<close> stay free for variables.
\<close>

type_synonym dict = "(int list \<times> int) list"

record rule =
  rule_number :: int
  rule_n :: nat
  rule_mapping :: dict

text \<open>The loop of \<^verbatim>\<open>_get_mapping\<close> over the zipped pairs; \<^verbatim>\<open>mapping[key] = value\<close>
  overwrites an existing key in place and appends a new one.\<close>

fun get_mapping_loop :: "nat \<Rightarrow> (int \<times> int) list \<Rightarrow> dict \<Rightarrow> error + dict" where
  "get_mapping_loop n [] mapping = Inr mapping"
| "get_mapping_loop n ((i, v) # rest) mapping =
     (case binary i n of
        Inl e \<Rightarrow> Inl e
      | Inr key \<Rightarrow> get_mapping_loop n rest (AList.update key v mapping))"

definition get_mapping :: "int \<Rightarrow> nat \<Rightarrow> error + dict" where
  "get_mapping number n =
     (case binary number (2 ^ n) of
        Inl e \<Rightarrow> Inl e
      | Inr ds \<Rightarrow> get_mapping_loop n (zip (range1 (2 ^ n)) ds) [])"

text \<open>
  \<^verbatim>\<open>Rule.__init__(number, n)\<close>. When \<^verbatim>\<open>number\<close> is \<^verbatim>\<open>None\<close> the source draws one
  with \<^verbatim>\<open>random.randint(0, 2 ** (2**n) - 1)\<close>; the drawn value is the parameter
  \<open>draw\<close>. The line it prints then is not part of the model.
\<close>

definition Rule_init :: "int \<Rightarrow> int option \<Rightarrow> nat \<Rightarrow> error + rule" where
  "Rule_init draw number_opt n =
     (let number = (case number_opt of None \<Rightarrow> draw | Some k \<Rightarrow> k)
      in if \<not> number < 2 ^ (2 ^ n) then Inl AssertionError
         else if \<not> n mod 2 = 1 then Inl AssertionError
         else (case get_mapping number n of
                 Inl e \<Rightarrow> Inl e
               | Inr m \<Rightarrow> Inr \<lparr>rule_number = number, rule_n = n, rule_mapping = m\<rparr>))"

definition get_next_cell :: "rule \<Rightarrow> int list \<Rightarrow> error + int" where
  "get_next_cell r interval_cells =
     (if \<not> length interval_cells = rule_n r then Inl AssertionError
      else (case map_of (rule_mapping r) interval_cells of
              None \<Rightarrow> Inl KeyError
            | Some v \<Rightarrow> Inr v))"

subsection \<open>\<^verbatim>\<open>CellularAutomata\<close>\<close>

text \<open>
  The object's state: the attribute \<^verbatim>\<open>_size\<close> (read through the property
  \<^verbatim>\<open>size\<close>; the field is called \<open>ca_size\<close> here, since \<open>size\<close> is a constant
  of HOL) and the list \<^verbatim>\<open>cells\<close>.
\<close>

record automaton =
  ca_size :: int
  cells :: "int list"

definition SYMBOLS :: "(int \<times> char) list" where
  "SYMBOLS = [(0, CHR '' ''), (1, CHR ''#'')]"

text \<open>\<^verbatim>\<open>[0] * k\<close> is empty for \<open>k \<le> 0\<close>.\<close>

definition init_zeroes :: "automaton \<Rightarrow> automaton" where
  "init_zeroes a = a\<lparr>cells := replicate (nat (ca_size a)) 0\<rparr>"

definition CellularAutomata_init :: "int \<Rightarrow> automaton" where
  "CellularAutomata_init sz = init_zeroes \<lparr>ca_size = sz, cells = []\<rparr>"

text \<open>The setter of the property \<^verbatim>\<open>size\<close>.\<close>

definition set_size :: "int \<Rightarrow> automaton \<Rightarrow> automaton" where
  "set_size v a = init_zeroes (a\<lparr>ca_size := v\<rparr>)"

text \<open>
  \<^verbatim>\<open>init_single\<close> assigns the zeroed list before it checks the position, so a
  call that raises has changed the object already: the result is the exception
  raised, if any, and the state the call leaves. The position is \<^verbatim>\<open>None\<close> or an
  integer.
\<close>

definition init_single :: "int option \<Rightarrow> automaton \<Rightarrow> error option \<times> automaton" where
  "init_single pos a =
     (let a1 = a\<lparr>cells := replicate (nat (ca_size a)) 0\<rparr>
      in case pos of
           None \<Rightarrow>
             (case setitem (cells a1) (ca_size a1 div 2) 1 of
                Inl e \<Rightarrow> (Some e, a1)
              | Inr cs \<Rightarrow> (None, a1\<lparr>cells := cs\<rparr>))
         | Some p \<Rightarrow>
             if \<not> (0 \<le> p \<and> p < ca_size a1) then (Some AssertionError, a1)
             else (case setitem (cells a1) p 1 of
                     Inl e \<Rightarrow> (Some e, a1)
                   | Inr cs \<Rightarrow> (None, a1\<lparr>cells := cs\<rparr>)))"

text \<open>
  \<^verbatim>\<open>randomize\<close>: the \<open>k\<close>-th call of \<^verbatim>\<open>random.randint(0, 1)\<close> returns 1 when
  \<open>rnd k\<close> holds and 0 otherwise.
\<close>

definition randomize :: "(nat \<Rightarrow> bool) \<Rightarrow> automaton \<Rightarrow> automaton" where
  "randomize rnd a =
     a\<lparr>cells := map (\<lambda>k. if rnd k then 1 else 0) [0..<nat (ca_size a)]\<rparr>"

text \<open>The neighbourhood read for position \<open>i\<close>: \<^verbatim>\<open>interval_cells\<close> in the source.\<close>

definition interval_cells :: "automaton \<Rightarrow> int \<Rightarrow> int \<Rightarrow> error + int list" where
  "interval_cells a margin i =
     map_result
       (\<lambda>rel_i. case py_mod rel_i (ca_size a) of
                   Inl e \<Rightarrow> Inl e
                 | Inr k \<Rightarrow> getitem (cells a) k)
       (range2 (i - margin) (i + margin + 1))"

text \<open>The loop of \<^verbatim>\<open>next_generation\<close>: it reads \<open>a\<close> and appends to \<^verbatim>\<open>next_cells\<close>.\<close>

fun next_generation_loop ::
  "rule \<Rightarrow> automaton \<Rightarrow> int \<Rightarrow> int list \<Rightarrow> int list \<Rightarrow> error + int list" where
  "next_generation_loop r a margin [] next_cells = Inr next_cells"
| "next_generation_loop r a margin (i # rest) next_cells =
     (case interval_cells a margin i of
        Inl e \<Rightarrow> Inl e
      | Inr ic \<Rightarrow>
          (case get_next_cell r ic of
             Inl e \<Rightarrow> Inl e
           | Inr next_cell \<Rightarrow> next_generation_loop r a margin rest (next_cells @ [next_cell])))"

text \<open>An exception leaves the object as it was: only the last line assigns.\<close>

definition next_generation :: "rule \<Rightarrow> automaton \<Rightarrow> error + automaton" where
  "next_generation r a =
     (let margin = int (rule_n r) div 2
      in case next_generation_loop r a margin (range1 (ca_size a)) [] of
           Inl e \<Rightarrow> Inl e
         | Inr next_cells \<Rightarrow> Inr (a\<lparr>cells := next_cells\<rparr>))"

text \<open>\<^verbatim>\<open>__str__\<close>: one symbol for each cell, \<^verbatim>\<open>KeyError\<close> for a cell that has none.\<close>

definition str_automaton :: "automaton \<Rightarrow> error + string" where
  "str_automaton a =
     map_result (\<lambda>cell. case map_of SYMBOLS cell of None \<Rightarrow> Inl KeyError | Some s \<Rightarrow> Inr s)
       (cells a)"

text \<open>
  The loop of \<^verbatim>\<open>run\<close>. The printed lines are collected in \<open>out\<close>; the result is
  \<open>None\<close> when the loop never ends, the exception when one is raised, and
  otherwise the automaton, the lines printed and the counter \<^verbatim>\<open>iteration\<close> at
  the \<^verbatim>\<open>break\<close>.
\<close>

partial_function (option) run_loop ::
  "rule \<Rightarrow> int \<Rightarrow> int \<Rightarrow> automaton \<Rightarrow> string list
     \<Rightarrow> (error + automaton \<times> string list \<times> int) option" where
  "run_loop r iteration_limit iteration a out =
     (case str_automaton a of
        Inl e \<Rightarrow> Some (Inl e)
      | Inr line \<Rightarrow>
          (case next_generation r a of
             Inl e \<Rightarrow> Some (Inl e)
           | Inr a' \<Rightarrow>
               if iteration + 1 > iteration_limit \<and> iteration_limit > 0
               then Some (Inr (a', out @ [line], iteration + 1))
               else run_loop r iteration_limit (iteration + 1) a' (out @ [line])))"

definition run ::
  "rule \<Rightarrow> int option \<Rightarrow> automaton \<Rightarrow> (error + automaton \<times> string list \<times> int) option" where
  "run r limit_opt a =
     (let iteration_limit = (case limit_opt of None \<Rightarrow> ca_size a div 2 | Some l \<Rightarrow> l)
      in run_loop r iteration_limit 0 a [])"

section \<open>Notions of the specification\<close>

text \<open>
  The \<open>d\<close>-digit binary representation of \<open>k\<close>, most significant digit first:
  digit \<open>j\<close> counted from that end is \<open>(k div 2 ^ (d - 1 - j)) mod 2\<close>.
\<close>

definition msb_digits :: "nat \<Rightarrow> int \<Rightarrow> int list" where
  "msb_digits d k = map (\<lambda>j. (k div 2 ^ (d - 1 - j)) mod 2) [0..<d]"

text \<open>The number a list of binary digits stands for, most significant digit first.\<close>

definition bits_value :: "int list \<Rightarrow> int" where
  "bits_value xs = foldl (\<lambda>acc b. 2 * acc + b) 0 xs"

text \<open>The value of a binary digit character.\<close>

definition dval :: "char \<Rightarrow> int" where
  "dval c = (if c = CHR ''1'' then 1 else 0)"

text \<open>The pairs the loop of \<^verbatim>\<open>_get_mapping\<close> stores, for valid pattern indices.\<close>

definition keyed :: "nat \<Rightarrow> (int \<times> int) list \<Rightarrow> dict" where
  "keyed n ps = map (\<lambda>(i, v). (msb_digits n i, v)) ps"

text \<open>
  The state every operation of the automaton is meant to leave: as many cells as the
  size says, each of them 0 or 1.
\<close>

definition well_formed :: "automaton \<Rightarrow> bool" where
  "well_formed a \<longleftrightarrow> int (length (cells a)) = ca_size a \<and> set (cells a) \<subseteq> {0, 1}"

text \<open>The automaton after \<open>k\<close> calls of \<^verbatim>\<open>next_generation\<close>.\<close>

fun generations :: "rule \<Rightarrow> nat \<Rightarrow> automaton \<Rightarrow> error + automaton" where
  "generations r 0 a = Inr a"
| "generations r (Suc k) a =
     (case next_generation r a of Inl e \<Rightarrow> Inl e | Inr a' \<Rightarrow> generations r k a')"

section \<open>Objects used in the examples\<close>

text \<open>The rule that \<^verbatim>\<open>Rule(60)\<close> constructs, with its table in insertion order.\<close>

definition rule60 :: rule where
  "rule60 = \<lparr>rule_number = 60, rule_n = 3,
     rule_mapping =
       [([0, 0, 0], 0), ([0, 0, 1], 0), ([0, 1, 0], 1), ([0, 1, 1], 1),
        ([1, 0, 0], 1), ([1, 0, 1], 1), ([1, 1, 0], 0), ([1, 1, 1], 0)]\<rparr>"

section \<open>Binary digits\<close>

lemma msb_digits_Suc: "msb_digits (Suc d) k = msb_digits d (k div 2) @ [k mod 2]"
proof -
  have "(k div 2) div 2 ^ (d - 1 - j) = k div 2 ^ (d - j)" if "j < d" for j
  proof -
    have "d - j = Suc (d - 1 - j)" using that by simp
    then show ?thesis by (simp add: zdiv_zmult2_eq)
  qed
  then show ?thesis by (simp add: msb_digits_def)
qed

lemma msb_digits_zero: "msb_digits d 0 = replicate d 0"
  by (simp add: msb_digits_def map_replicate_const)

lemma msb_digits_small: "0 \<le> k \<Longrightarrow> k < 2 \<Longrightarrow> msb_digits (Suc d) k = replicate d 0 @ [k]"
  by (simp add: msb_digits_Suc msb_digits_zero)

lemma int_of_char_01: "int_of_char CHR ''0'' = Inr 0" "int_of_char CHR ''1'' = Inr 1"
  by (simp_all add: int_of_char_def)

lemma map_result_Inr: "(\<And>x. x \<in> set xs \<Longrightarrow> f x = Inr (g x)) \<Longrightarrow> map_result f xs = Inr (map g xs)"
  by (induction xs) auto

lemma bin_nat_pad:
  "m < 2 ^ Suc d \<Longrightarrow>
     length (bin_nat m) \<le> Suc d \<and> set (bin_nat m) \<subseteq> {CHR ''0'', CHR ''1''} \<and> bin_nat m \<noteq> [] \<and>
     map dval (replicate (Suc d - length (bin_nat m)) CHR ''0'' @ bin_nat m) = msb_digits (Suc d) (int m)"
proof (induction d arbitrary: m)
  case 0
  then have "m < 2" by simp
  then show ?case by (auto simp: bin_nat.simps[of m] msb_digits_def dval_def)
next
  case (Suc d)
  show ?case
  proof (cases "m < 2")
    case True
    then have b: "bin_nat m = [if m = 0 then CHR ''0'' else CHR ''1'']" by (simp add: bin_nat.simps[of m])
    have "msb_digits (Suc (Suc d)) (int m) = replicate (Suc d) 0 @ [int m]"
      using True by (intro msb_digits_small) auto
    then show ?thesis using True by (auto simp: b dval_def)
  next
    case False
    have lt: "m div 2 < 2 ^ Suc d" using Suc.prems by simp
    note IH = Suc.IH[OF lt]
    have b: "bin_nat m = bin_nat (m div 2) @ [if m mod 2 = 0 then CHR ''0'' else CHR ''1'']"
      using False by (subst bin_nat.simps) simp
    have len: "Suc (Suc d) - length (bin_nat m) = Suc d - length (bin_nat (m div 2))"
      by (simp add: b)
    have "map dval (replicate (Suc (Suc d) - length (bin_nat m)) CHR ''0'' @ bin_nat m)
          = map dval (replicate (Suc d - length (bin_nat (m div 2))) CHR ''0'' @ bin_nat (m div 2))
            @ [int (m mod 2)]"
      unfolding len by (simp add: b dval_def)
    also have "\<dots> = msb_digits (Suc d) (int (m div 2)) @ [int (m mod 2)]"
      using IH by simp
    also have "\<dots> = msb_digits (Suc (Suc d)) (int m)"
      by (simp add: msb_digits_Suc[of "Suc d"] zdiv_int zmod_int)
    finally show ?thesis using IH by (auto simp: b)
  qed
qed

lemma binary_eq_msb_digits:
  assumes "0 \<le> k" "k < 2 ^ d" "0 < d"
  shows "binary k d = Inr (msb_digits d k)"
proof -
  obtain d' where d: "d = Suc d'" using assms(3) by (cases d) auto
  let ?m = "nat k"
  have m: "?m < 2 ^ Suc d'" using assms d by (simp add: nat_less_iff)
  note P = bin_nat_pad[OF m]
  have rp: "removeprefix ''0b'' (bin k) = bin_nat ?m"
    using assms(1) by (simp add: removeprefix_def bin_def)
  obtain c rest where cr: "bin_nat ?m = c # rest" using P by (cases "bin_nat ?m") auto
  have c: "c \<noteq> CHR ''+''" "c \<noteq> CHR ''-''" using P cr by auto
  have zf: "zfill d (bin_nat ?m) = replicate (d - length (bin_nat ?m)) CHR ''0'' @ bin_nat ?m"
    using c cr by (auto simp: zfill_def)
  have "map_result int_of_char (zfill d (bin_nat ?m)) = Inr (map dval (zfill d (bin_nat ?m)))"
  proof (rule map_result_Inr)
    fix x assume "x \<in> set (zfill d (bin_nat ?m))"
    then have "x = CHR ''0'' \<or> x = CHR ''1''" unfolding zf using P by auto
    then show "int_of_char x = Inr (dval x)" by (auto simp: int_of_char_01 dval_def)
  qed
  also have "map dval (zfill d (bin_nat ?m)) = msb_digits d k"
  proof -
    have "map dval (zfill d (bin_nat ?m)) =
          map dval (replicate (Suc d' - length (bin_nat ?m)) CHR ''0'' @ bin_nat ?m)"
      using zf by (simp add: d)
    also have "\<dots> = msb_digits (Suc d') (int ?m)" using P by blast
    finally show ?thesis using assms(1) by (simp add: d)
  qed
  finally show ?thesis using assms by (simp add: binary_def rp)
qed

lemma length_msb_digits [simp]: "length (msb_digits d k) = d"
  by (simp add: msb_digits_def)

lemma set_msb_digits: "set (msb_digits d k) \<subseteq> {0, 1}"
  by (auto simp: msb_digits_def)

lemma msb_digits_nth: "j < d \<Longrightarrow> msb_digits d k ! j = (k div 2 ^ (d - 1 - j)) mod 2"
  by (simp add: msb_digits_def)

lemma msb_digits_inj:
  "0 \<le> i \<Longrightarrow> i < 2 ^ d \<Longrightarrow> 0 \<le> j \<Longrightarrow> j < 2 ^ d \<Longrightarrow> msb_digits d i = msb_digits d j \<Longrightarrow> i = j"
proof (induction d arbitrary: i j)
  case 0 then show ?case by simp
next
  case (Suc d)
  from Suc.prems(5) have e: "msb_digits d (i div 2) = msb_digits d (j div 2)" and m: "i mod 2 = j mod 2"
    by (simp_all add: msb_digits_Suc)
  have "i div 2 = j div 2"
    using Suc.prems by (intro Suc.IH[OF _ _ _ _ e]) auto
  with m show ?case by (metis mult_div_mod_eq)
qed

lemma bits_value_props:
  "set xs \<subseteq> {0, 1} \<Longrightarrow>
     0 \<le> bits_value xs \<and> bits_value xs < 2 ^ length xs \<and> msb_digits (length xs) (bits_value xs) = xs"
proof (induction xs rule: rev_induct)
  case Nil then show ?case by (simp add: bits_value_def msb_digits_def)
next
  case (snoc b xs)
  then have IH: "0 \<le> bits_value xs" "bits_value xs < 2 ^ length xs"
      "msb_digits (length xs) (bits_value xs) = xs" and b: "b = 0 \<or> b = 1" by auto
  have v: "bits_value (xs @ [b]) = 2 * bits_value xs + b" by (simp add: bits_value_def)
  have "(2 * bits_value xs + b) div 2 = bits_value xs" "(2 * bits_value xs + b) mod 2 = b"
    using b by auto
  then have "msb_digits (Suc (length xs)) (bits_value (xs @ [b])) = xs @ [b]"
    using IH by (simp add: msb_digits_Suc v)
  moreover have "0 \<le> bits_value (xs @ [b])" "bits_value (xs @ [b]) < 2 ^ Suc (length xs)"
    using IH b by (auto simp: v)
  ultimately show ?case by simp
qed


lemma keyed_Cons: "keyed n ((i, v) # ps) = (msb_digits n i, v) # keyed n ps"
  by (simp add: keyed_def)

lemma range1_pow: "range1 (2 ^ n) = map int [0..<2 ^ n]"
  by (simp add: range1_def nat_power_eq)

lemma int_less_pow: "x < 2 ^ n \<Longrightarrow> int x < 2 ^ n"
  by simp

lemma get_mapping_loop_lookup:
  assumes "0 < n" "\<forall>(i, v)\<in>set ps. 0 \<le> i \<and> i < 2 ^ n" "distinct (map fst ps)"
  shows "\<exists>m'. get_mapping_loop n ps m = Inr m' \<and>
           (\<forall>key. map_of m' key =
                    (case map_of (keyed n ps) key of Some v \<Rightarrow> Some v | None \<Rightarrow> map_of m key))"
  using assms(2,3)
proof (induction ps arbitrary: m)
  case Nil
  then show ?case by (simp add: keyed_def)
next
  case (Cons p ps)
  obtain i v where p: "p = (i, v)" by (cases p)
  have i: "0 \<le> i" "i < 2 ^ n" using Cons.prems(1) p by auto
  have b: "binary i n = Inr (msb_digits n i)"
    using i assms(1) by (rule binary_eq_msb_digits)
  have rest: "\<forall>(i, v)\<in>set ps. 0 \<le> i \<and> i < 2 ^ n" "distinct (map fst ps)"
    using Cons.prems by auto
  obtain m' where m': "get_mapping_loop n ps (AList.update (msb_digits n i) v m) = Inr m'"
    and look: "\<And>key. map_of m' key =
        (case map_of (keyed n ps) key of Some v \<Rightarrow> Some v
         | None \<Rightarrow> map_of (AList.update (msb_digits n i) v m) key)"
    using Cons.IH[OF rest] by blast
  have fresh: "map_of (keyed n ps) (msb_digits n i) = None"
  proof (rule ccontr)
    assume "map_of (keyed n ps) (msb_digits n i) \<noteq> None"
    then obtain w where "(msb_digits n i, w) \<in> set (keyed n ps)"
      by (auto dest: map_of_SomeD)
    then obtain j where j: "(j, w) \<in> set ps" "msb_digits n j = msb_digits n i"
      by (auto simp: keyed_def)
    then have "0 \<le> j" "j < 2 ^ n" using rest(1) by auto
    then have "j = i" using i j(2) by (intro msb_digits_inj[of j n i]) auto
    then have "i \<in> fst ` set ps" using j(1) by force
    then show False using Cons.prems(2) p by simp
  qed
  have "get_mapping_loop n (p # ps) m = Inr m'" by (simp add: p b m')
  moreover have "map_of m' key =
      (case map_of (keyed n (p # ps)) key of Some v \<Rightarrow> Some v | None \<Rightarrow> map_of m key)" for key
  proof (cases "key = msb_digits n i")
    case True
    then show ?thesis by (simp add: look fresh keyed_Cons p update_conv')
  next
    case False
    then show ?thesis by (simp add: look keyed_Cons p update_conv' split: option.splits)
  qed
  ultimately show ?case by blast
qed

lemma keyed_zip_range:
  "keyed n (zip (range1 (2 ^ n)) ds) = zip (map (\<lambda>i. msb_digits n (int i)) [0..<2 ^ n]) ds"
  by (simp add: keyed_def range1_pow zip_map1 split_def)

lemma distinct_keys: "distinct (map (\<lambda>i. msb_digits n (int i)) [0..<2 ^ n])"
proof -
  have "inj_on (\<lambda>i. msb_digits n (int i)) (set [0..<2 ^ n])"
  proof (rule inj_onI)
    fix x y assume "x \<in> set [0..<2 ^ n]" "y \<in> set [0..<2 ^ n]"
      and e: "msb_digits n (int x) = msb_digits n (int y)"
    then have "int x < 2 ^ n" "int y < 2 ^ n" by (simp_all add: int_less_pow)
    then have "int x = int y" using e by (intro msb_digits_inj[of "int x" n "int y"]) auto
    then show "x = y" by simp
  qed
  then show ?thesis by (simp add: distinct_map)
qed

lemma get_mapping_lookup:
  assumes "0 \<le> number" "number < 2 ^ (2 ^ n)" "0 < n"
  shows "\<exists>m. get_mapping number n = Inr m \<and>
           (\<forall>i < 2 ^ n. map_of m (msb_digits n (int i)) = Some (msb_digits (2 ^ n) number ! i)) \<and>
           (\<forall>key v. map_of m key = Some v \<longrightarrow> (\<exists>i < 2 ^ n. key = msb_digits n (int i) \<and> v = msb_digits (2 ^ n) number ! i))"
proof -
  let ?ds = "msb_digits (2 ^ n) number"
  let ?ps = "zip (range1 (2 ^ n)) ?ds"
  have b: "binary number (2 ^ n) = Inr ?ds"
    using assms(1,2) by (intro binary_eq_msb_digits) auto
  have rng: "\<forall>(i, v)\<in>set ?ps. 0 \<le> i \<and> i < 2 ^ n"
    by (auto simp: range1_pow int_less_pow dest!: set_zip_leftD)
  have dist: "distinct (map fst ?ps)"
    by (simp add: range1_pow distinct_map inj_on_def)
  obtain m where m: "get_mapping_loop n ?ps [] = Inr m"
    and look: "\<And>key. map_of m key = map_of (keyed n ?ps) key"
    using get_mapping_loop_lookup[OF assms(3) rng dist, of "[]"]
    by (auto split: option.splits) (metis option.exhaust option.simps(4,5))
  have gm: "get_mapping number n = Inr m" by (simp add: get_mapping_def b m)
  let ?ks = "map (\<lambda>i. msb_digits n (int i)) [0..<2 ^ n]"
  have k: "keyed n ?ps = zip ?ks ?ds" by (rule keyed_zip_range)
  have 1: "map_of m (msb_digits n (int i)) = Some (?ds ! i)" if "i < 2 ^ n" for i
  proof -
    have "map_of (zip ?ks ?ds) (?ks ! i) = Some (?ds ! i)"
      using that by (intro map_of_zip_nth distinct_keys) auto
    then show ?thesis using that by (simp add: look k)
  qed
  have 2: "\<exists>i < 2 ^ n. key = msb_digits n (int i) \<and> v = ?ds ! i" if "map_of m key = Some v" for key v
  proof -
    have "(key, v) \<in> set (zip ?ks ?ds)" using that by (simp add: look k map_of_SomeD)
    then obtain i where "i < 2 ^ n" "key = ?ks ! i" "v = ?ds ! i"
      by (auto simp: set_zip)
    then show ?thesis by auto
  qed
  show ?thesis using gm 1 2 by blast
qed

subsection \<open>The claim about \<^verbatim>\<open>binary\<close>\<close>

lemma binary_AssertionError_iff:
  "binary k d = Inl AssertionError \<longleftrightarrow> k < 0 \<or> 2 ^ d \<le> k"
proof (cases "0 \<le> k \<and> k < 2 ^ d")
  case False
  then show ?thesis by (auto simp: binary_def)
next
  case True
  show ?thesis
  proof (cases d)
    case 0
    with True have "k = 0" by simp
    moreover have "binary 0 0 = Inr [0]" by code_simp
    ultimately show ?thesis using 0 by simp
  next
    case (Suc d')
    with True have "binary k d = Inr (msb_digits d k)"
      by (intro binary_eq_msb_digits) auto
    then show ?thesis using True by auto
  qed
qed

lemma binary_examples:
  "binary 5 4 = Inr [0, 1, 0, 1]" "binary 0 1 = Inr [0]" "binary 2 1 = Inl AssertionError"
  by code_simp+

text \<open>
  C5 (\<^verbatim>\<open>binary\<close> returns exactly \<open>digits\<close> binary values whenever
  \<open>0 \<le> number < 2 ^ digits\<close>). The inputs \<open>number = 0\<close>, \<open>digits = 0\<close> satisfy the
  condition, and the source returns the one-element tuple \<^verbatim>\<open>(0,)\<close> there, not
  the empty tuple: \<^verbatim>\<open>bin(0)\<close> is \<^verbatim>\<open>"0b0"\<close> and \<^verbatim>\<open>zfill(0)\<close> pads nothing. For
  every \<open>digits > 0\<close> the result is the representation the claim describes
  (lemma \<open>binary_eq_msb_digits\<close>), the failures are as claimed
  (\<open>binary_AssertionError_iff\<close>), and so are the three examples
  (\<open>binary_examples\<close>).
\<close>

theorem binary_zero_digits_one_value:
  "(0::int) \<le> 0 \<and> (0::int) < 2 ^ 0 \<and> binary 0 0 = Inr [0] \<and> length [0 :: int] \<noteq> 0"
  by code_simp

section \<open>Rules\<close>

lemma get_mapping_Inr_D:
  assumes "get_mapping number n = Inr m"
  shows "0 \<le> number" "number < 2 ^ (2 ^ n)"
  using assms by (auto simp: get_mapping_def binary_def split: sum.splits if_splits)

lemma Rule_init_Inr_D:
  assumes "Rule_init draw number_opt n = Inr r"
  shows "rule_n r = n" "odd n" "0 < n" "0 \<le> rule_number r" "rule_number r < 2 ^ (2 ^ n)"
    "get_mapping (rule_number r) n = Inr (rule_mapping r)"
    "rule_number r = (case number_opt of None \<Rightarrow> draw | Some k \<Rightarrow> k)"
proof -
  let ?k = "case number_opt of None \<Rightarrow> draw | Some k \<Rightarrow> k"
  from assms obtain m where odd: "n mod 2 = 1" and m: "get_mapping ?k n = Inr m"
    and r: "r = \<lparr>rule_number = ?k, rule_n = n, rule_mapping = m\<rparr>"
    by (auto simp: Rule_init_def Let_def split: if_splits sum.splits)
  show "rule_n r = n" "rule_number r = ?k" by (simp_all add: r)
  show "odd n" using odd by presburger
  then show "0 < n" by (cases n) auto
  show "get_mapping (rule_number r) n = Inr (rule_mapping r)" using m by (simp add: r)
  then show "0 \<le> rule_number r" "rule_number r < 2 ^ (2 ^ n)"
    by (auto dest: get_mapping_Inr_D)
qed

lemma Rule_init_valid:
  assumes "0 \<le> number" "number < 2 ^ (2 ^ n)" "odd n"
  shows "\<exists>m. Rule_init draw (Some number) n = Inr \<lparr>rule_number = number, rule_n = n, rule_mapping = m\<rparr>
           \<and> get_mapping number n = Inr m"
proof -
  have n: "0 < n" using assms(3) by (cases n) auto
  obtain m where "get_mapping number n = Inr m"
    using get_mapping_lookup[OF assms(1,2) n] by blast
  moreover have "n mod 2 = 1" using assms(3) by presburger
  ultimately show ?thesis using assms(2) by (simp add: Rule_init_def)
qed

lemma rule_lookup_index:
  assumes "Rule_init draw number_opt n = Inr r" "i < 2 ^ n"
  shows "map_of (rule_mapping r) (msb_digits n (int i)) = Some ((rule_number r div 2 ^ (2 ^ n - 1 - i)) mod 2)"
proof -
  note D = Rule_init_Inr_D[OF assms(1)]
  obtain m where "get_mapping (rule_number r) n = Inr m"
    and "\<forall>i < 2 ^ n. map_of m (msb_digits n (int i)) = Some (msb_digits (2 ^ n) (rule_number r) ! i)"
    using get_mapping_lookup[OF D(4,5,3)] by blast
  then have "map_of (rule_mapping r) (msb_digits n (int i)) = Some (msb_digits (2 ^ n) (rule_number r) ! i)"
    using D(6) assms(2) by simp
  then show ?thesis using assms(2) by (simp add: msb_digits_nth)
qed

lemma rule_lookup_binary:
  assumes "Rule_init draw number_opt n = Inr r" "length xs = n" "set xs \<subseteq> {0, 1}"
  shows "map_of (rule_mapping r) xs =
           Some ((rule_number r div 2 ^ (2 ^ n - 1 - nat (bits_value xs))) mod 2)"
proof -
  from bits_value_props[OF assms(3)] assms(2)
  have v: "0 \<le> bits_value xs" "bits_value xs < 2 ^ n" "msb_digits n (bits_value xs) = xs" by auto
  let ?i = "nat (bits_value xs)"
  have i: "?i < 2 ^ n" using v by (simp add: nat_less_iff)
  have "msb_digits n (int ?i) = xs" using v by simp
  with rule_lookup_index[OF assms(1) i] show ?thesis by simp
qed

lemma rule_mapping_range:
  assumes "Rule_init draw number_opt n = Inr r" "map_of (rule_mapping r) key = Some v"
  shows "(v = 0 \<or> v = 1) \<and> length key = n \<and> set key \<subseteq> {0, 1}"
proof -
  note D = Rule_init_Inr_D[OF assms(1)]
  obtain m where "get_mapping (rule_number r) n = Inr m"
    and "\<forall>key v. map_of m key = Some v \<longrightarrow>
           (\<exists>i < 2 ^ n. key = msb_digits n (int i) \<and> v = msb_digits (2 ^ n) (rule_number r) ! i)"
    using get_mapping_lookup[OF D(4,5,3)] by blast
  then obtain i where i: "i < 2 ^ n" "key = msb_digits n (int i)" "v = msb_digits (2 ^ n) (rule_number r) ! i"
    using D(6) assms(2) by auto
  have "v \<in> set (msb_digits (2 ^ n) (rule_number r))" using i by simp
  then have "v = 0 \<or> v = 1" using set_msb_digits by blast
  then show ?thesis using i set_msb_digits by auto
qed

lemma Rule_init_60: "Rule_init draw (Some 60) 3 = Inr rule60"
  unfolding rule60_def by code_simp

text \<open>
  C2. For a rule number \<open>0 \<le> number < 2 ^ (2 ^ n)\<close>, an odd \<open>n\<close> and a pattern index
  \<open>i < 2 ^ n\<close>, the constructor succeeds, and its table maps the \<open>n\<close>-digit binary tuple
  of \<open>i\<close> (most significant digit first, as \<^verbatim>\<open>binary(i, n)\<close> returns it) to digit
  \<open>i\<close>, counted from the most significant end, of the \<open>2 ^ n\<close>-digit representation of
  the rule number (as \<^verbatim>\<open>binary(number, 2 ** n)\<close> returns it), which is
  \<open>(number div 2 ^ (2 ^ n - 1 - i)) mod 2\<close>. Rule 60 with \<open>n = 3\<close> maps \<open>(1, 1, 0)\<close> to 0
  and \<open>(0, 1, 1)\<close> to 1.
\<close>

theorem mapping_pairs_pattern_with_digit:
  assumes "0 \<le> number" "number < 2 ^ (2 ^ n)" "odd n" "i < 2 ^ n"
  shows "(\<exists>r. Rule_init draw (Some number) n = Inr r \<and>
              binary (int i) n = Inr (msb_digits n (int i)) \<and>
              binary number (2 ^ n) = Inr (msb_digits (2 ^ n) number) \<and>
              map_of (rule_mapping r) (msb_digits n (int i)) = Some (msb_digits (2 ^ n) number ! i) \<and>
              msb_digits (2 ^ n) number ! i = (number div 2 ^ (2 ^ n - 1 - i)) mod 2) \<and>
         (\<exists>r. Rule_init draw (Some 60) 3 = Inr r \<and>
              map_of (rule_mapping r) [1, 1, 0] = Some 0 \<and> get_next_cell r [1, 1, 0] = Inr 0 \<and>
              map_of (rule_mapping r) [0, 1, 1] = Some 1 \<and> get_next_cell r [0, 1, 1] = Inr 1)"
proof -
  have n: "0 < n" using assms(3) by (cases n) auto
  obtain r where r: "Rule_init draw (Some number) n = Inr r" and nr: "rule_number r = number"
    using Rule_init_valid[OF assms(1-3), of draw] by auto
  have "binary (int i) n = Inr (msb_digits n (int i))"
    using assms(4) n by (intro binary_eq_msb_digits) (simp_all add: int_less_pow)
  moreover have "binary number (2 ^ n) = Inr (msb_digits (2 ^ n) number)"
    using assms(1,2) by (intro binary_eq_msb_digits) auto
  moreover have "msb_digits (2 ^ n) number ! i = (number div 2 ^ (2 ^ n - 1 - i)) mod 2"
    using assms(4) by (simp add: msb_digits_nth)
  moreover have "map_of (rule_mapping r) (msb_digits n (int i)) = Some (msb_digits (2 ^ n) number ! i)"
    using rule_lookup_index[OF r assms(4)] assms(4) by (simp add: msb_digits_nth nr)
  moreover have "Rule_init draw (Some 60) 3 = Inr rule60"
    by (rule Rule_init_60)
  moreover have "map_of (rule_mapping rule60) [1, 1, 0] = Some 0" "get_next_cell rule60 [1, 1, 0] = Inr 0"
    "map_of (rule_mapping rule60) [0, 1, 1] = Some 1" "get_next_cell rule60 [0, 1, 1] = Inr 1"
    by (simp_all add: rule60_def get_next_cell_def)
  ultimately show ?thesis using r by blast
qed

theorem mapping_pairs_pattern_with_digit_witness:
  "(0::int) \<le> 60 \<and> (60::int) < 2 ^ (2 ^ 3) \<and> odd (3::nat) \<and> (6::nat) < 2 ^ 3 \<and>
   Rule_init 0 (Some 60) 3 = Inr rule60 \<and> binary 6 3 = Inr [1, 1, 0] \<and>
   binary 60 (2 ^ 3) = Inr [0, 0, 1, 1, 1, 1, 0, 0] \<and>
   map_of (rule_mapping rule60) [1, 1, 0] = Some ([0, 0, 1, 1, 1, 1, 0, 0] ! 6) \<and>
   [0, 0, 1, 1, 1, 1, 0, 0] ! 6 = ((60::int) div 2 ^ (2 ^ 3 - 1 - 6)) mod 2"
proof -
  have r: "Rule_init 0 (Some 60) 3 = Inr rule60" by (rule Rule_init_60)
  have d: "msb_digits 3 6 = [1, 1, 0]" "msb_digits 8 60 = [0, 0, 1, 1, 1, 1, 0, 0]"
    by code_simp+
  show ?thesis
    using mapping_pairs_pattern_with_digit[of 60 3 6 0]
    by (simp add: r d)
qed

text \<open>
  C6. For a non-negative \<open>number\<close> and a positive \<open>n\<close>, the constructor called with
  that number raises \<^verbatim>\<open>AssertionError\<close> when \<open>number \<ge> 2 ^ (2 ^ n)\<close> or \<open>n\<close> is even,
  and otherwise returns a rule with the given number and \<open>n\<close>.
\<close>

theorem Rule_init_explicit_number:
  assumes "0 \<le> number" "0 < n"
  shows "(2 ^ (2 ^ n) \<le> number \<or> even n \<longrightarrow> Rule_init draw (Some number) n = Inl AssertionError) \<and>
         (\<not> (2 ^ (2 ^ n) \<le> number \<or> even n) \<longrightarrow>
            (\<exists>m. Rule_init draw (Some number) n =
                    Inr \<lparr>rule_number = number, rule_n = n, rule_mapping = m\<rparr>))"
proof (intro conjI impI)
  assume "2 ^ (2 ^ n) \<le> number \<or> even n"
  moreover have "n mod 2 \<noteq> 1" if "even n" using that by presburger
  ultimately show "Rule_init draw (Some number) n = Inl AssertionError"
    by (auto simp: Rule_init_def)
next
  assume "\<not> (2 ^ (2 ^ n) \<le> number \<or> even n)"
  then have "number < 2 ^ (2 ^ n)" "odd n" by auto
  from Rule_init_valid[OF assms(1) this]
  show "\<exists>m. Rule_init draw (Some number) n = Inr \<lparr>rule_number = number, rule_n = n, rule_mapping = m\<rparr>"
    by blast
qed

theorem Rule_init_explicit_number_witness:
  "(0::int) \<le> 60 \<and> (0::nat) < 3 \<and>
   (\<exists>m. Rule_init 0 (Some 60) 3 = Inr \<lparr>rule_number = 60, rule_n = 3, rule_mapping = m\<rparr>) \<and>
   (0::int) \<le> 256 \<and> Rule_init 0 (Some 256) 3 = Inl AssertionError \<and>
   (0::int) \<le> 5 \<and> (0::nat) < 2 \<and> Rule_init 0 (Some 5) 2 = Inl AssertionError"
  using Rule_init_explicit_number[of 60 3 0] Rule_init_explicit_number[of 256 3 0]
    Rule_init_explicit_number[of 5 2 0]
  by simp

text \<open>
  C4, as stated (the lookup never misses for any tuple of length \<open>n\<close>), fails:
  the table of rule 60 has no entry for the tuple \<open>(2, 0, 0)\<close> of length 3, and
  \<^verbatim>\<open>get_next_cell\<close> raises \<^verbatim>\<open>KeyError\<close> there.
\<close>

theorem get_next_cell_nonbinary_misses:
  "Rule_init 0 (Some 60) 3 = Inr rule60 \<and> rule_n rule60 = 3 \<and> length [2, 0, 0 :: int] = 3 \<and>
   get_next_cell rule60 [2, 0, 0] = Inl KeyError"
proof -
  have "Rule_init 0 (Some 60) 3 = Inr rule60" by (rule Rule_init_60)
  then show ?thesis by (simp add: rule60_def get_next_cell_def)
qed

text \<open>
  C4, amended. For every rule with odd \<open>n\<close> and number in \<open>[0, 2 ^ (2 ^ n))\<close>,
  \<^verbatim>\<open>get_next_cell\<close> raises \<^verbatim>\<open>AssertionError\<close> when the length of its argument
  differs from \<open>n\<close>, and for every tuple of exactly \<open>n\<close> binary values (each 0 or 1)
  the lookup does not miss and the call returns the mapped value, which is the
  digit of the rule number selected by the tuple read as a binary number.
\<close>

theorem get_next_cell_binary_total:
  assumes "0 \<le> number" "number < 2 ^ (2 ^ n)" "odd n"
  shows "\<exists>r. Rule_init draw (Some number) n = Inr r \<and>
           (\<forall>xs. length xs \<noteq> n \<longrightarrow> get_next_cell r xs = Inl AssertionError) \<and>
           (\<forall>xs. length xs = n \<and> set xs \<subseteq> {0, 1} \<longrightarrow>
              (\<exists>v. map_of (rule_mapping r) xs = Some v \<and> get_next_cell r xs = Inr v \<and>
                   v = (number div 2 ^ (2 ^ n - 1 - nat (bits_value xs))) mod 2))"
proof -
  obtain r where r: "Rule_init draw (Some number) n = Inr r" and nr: "rule_number r = number"
    using Rule_init_valid[OF assms, of draw] by auto
  have rn: "rule_n r = n" using Rule_init_Inr_D(1)[OF r] .
  have "get_next_cell r xs = Inl AssertionError" if "length xs \<noteq> n" for xs
    using that by (simp add: get_next_cell_def rn)
  moreover have "\<exists>v. map_of (rule_mapping r) xs = Some v \<and> get_next_cell r xs = Inr v \<and>
                   v = (number div 2 ^ (2 ^ n - 1 - nat (bits_value xs))) mod 2"
    if "length xs = n \<and> set xs \<subseteq> {0, 1}" for xs
    using rule_lookup_binary[OF r, of xs] that by (simp add: get_next_cell_def rn nr)
  ultimately show ?thesis using r by blast
qed

theorem get_next_cell_binary_total_witness:
  "(0::int) \<le> 60 \<and> (60::int) < 2 ^ (2 ^ 3) \<and> odd (3::nat) \<and>
   Rule_init 0 (Some 60) 3 = Inr rule60 \<and>
   get_next_cell rule60 [1, 1] = Inl AssertionError \<and>
   length [0, 1, 1 :: int] = 3 \<and> set [0, 1, 1 :: int] \<subseteq> {0, 1} \<and>
   map_of (rule_mapping rule60) [0, 1, 1] = Some 1 \<and> get_next_cell rule60 [0, 1, 1] = Inr 1 \<and>
   (1::int) = (60 div 2 ^ (2 ^ 3 - 1 - nat (bits_value [0, 1, 1]))) mod 2"
proof -
  have r: "Rule_init 0 (Some 60) 3 = Inr rule60" by (rule Rule_init_60)
  have v: "bits_value [0, 1, 1] = 3" by (simp add: bits_value_def)
  have k: "map_of (rule_mapping rule60) [0, 1, 1] = Some 1" by (simp add: rule60_def)
  show ?thesis
    using get_next_cell_binary_total[of 60 3 0]
    by (simp add: r v k)
qed

section \<open>The automaton\<close>

lemma getitem_in_range: "0 \<le> k \<Longrightarrow> k < int (length xs) \<Longrightarrow> getitem xs k = Inr (xs ! nat k)"
  by (simp add: getitem_def)

lemma setitem_in_range: "0 \<le> k \<Longrightarrow> k < int (length xs) \<Longrightarrow> setitem xs k v = Inr (xs[nat k := v])"
  by (simp add: setitem_def)

lemma interval_cells_ring:
  assumes "0 < ca_size a" "int (length (cells a)) = ca_size a"
  shows "interval_cells a margin i =
           Inr (map (\<lambda>k. cells a ! nat (k mod ca_size a)) [i - margin..i + margin])"
proof -
  have "(case py_mod k (ca_size a) of Inl e \<Rightarrow> Inl e | Inr j \<Rightarrow> getitem (cells a) j)
          = Inr (cells a ! nat (k mod ca_size a))" for k
  proof -
    have "0 \<le> k mod ca_size a" "k mod ca_size a < int (length (cells a))"
      using assms by simp_all
    then show ?thesis using assms(1) by (simp add: py_mod_def getitem_in_range)
  qed
  then have "map_result
      (\<lambda>rel_i. case py_mod rel_i (ca_size a) of Inl e \<Rightarrow> Inl e | Inr k \<Rightarrow> getitem (cells a) k)
      [i - margin..i + margin] =
      Inr (map (\<lambda>k. cells a ! nat (k mod ca_size a)) [i - margin..i + margin])"
    by (intro map_result_Inr) simp
  then show ?thesis by (simp add: interval_cells_def range2_def)
qed

lemma next_generation_loop_map:
  assumes "\<And>i. i \<in> set js \<Longrightarrow> \<exists>ic. interval_cells a margin i = Inr ic \<and> get_next_cell r ic = Inr (f i)"
  shows "next_generation_loop r a margin js acc = Inr (acc @ map f js)"
  using assms
proof (induction js arbitrary: acc)
  case Nil
  then show ?case by simp
next
  case (Cons j js)
  obtain ic where "interval_cells a margin j = Inr ic" "get_next_cell r ic = Inr (f j)"
    using Cons.prems[of j] by auto
  moreover have "next_generation_loop r a margin js (acc @ [f j]) = Inr ((acc @ [f j]) @ map f js)"
    using Cons.prems by (intro Cons.IH) auto
  ultimately show ?case by simp
qed

lemma window_length: "odd n \<Longrightarrow> length [i - int n div 2..i + int n div 2] = n"
proof -
  assume "odd n"
  then have "2 * (int n div 2) + 1 = int n" by presburger
  then show ?thesis by simp
qed

lemma next_generation_ring:
  assumes r: "Rule_init draw number_opt n = Inr r"
    and a: "0 < ca_size a" "int (length (cells a)) = ca_size a" "set (cells a) \<subseteq> {0, 1}"
  shows "next_generation r a =
           Inr (a\<lparr>cells := map (\<lambda>i. (rule_number r div
                    2 ^ (2 ^ n - 1 - nat (bits_value (map (\<lambda>k. cells a ! nat (k mod ca_size a))
                                                        [i - int n div 2..i + int n div 2])))) mod 2)
                 (range1 (ca_size a))\<rparr>)"
proof -
  note D = Rule_init_Inr_D[OF r]
  let ?m = "int n div 2"
  let ?w = "\<lambda>i. map (\<lambda>k. cells a ! nat (k mod ca_size a)) [i - ?m..i + ?m]"
  let ?f = "\<lambda>i. (rule_number r div 2 ^ (2 ^ n - 1 - nat (bits_value (?w i)))) mod 2"
  have step: "\<exists>ic. interval_cells a ?m i = Inr ic \<and> get_next_cell r ic = Inr (?f i)" for i
  proof -
    have len: "length (?w i) = n" using window_length[OF D(2), of i] by simp
    have "cells a ! nat (k mod ca_size a) \<in> set (cells a)" for k
    proof -
      have "0 \<le> k mod ca_size a" "k mod ca_size a < int (length (cells a))" using a by simp_all
      then show ?thesis by (intro nth_mem) linarith
    qed
    then have bin: "set (?w i) \<subseteq> {0, 1}" using a(3) by auto
    have "get_next_cell r (?w i) = Inr (?f i)"
      using rule_lookup_binary[OF r len bin] len by (simp add: get_next_cell_def D(1))
    then show ?thesis using interval_cells_ring[OF a(1,2)] by simp
  qed
  have "next_generation_loop r a ?m (range1 (ca_size a)) [] = Inr ([] @ map ?f (range1 (ca_size a)))"
    by (rule next_generation_loop_map) (rule step)
  then show ?thesis by (simp add: next_generation_def D(1))
qed

lemma next_generation_empty:
  "ca_size a \<le> 0 \<Longrightarrow> next_generation r a = Inr (a\<lparr>cells := []\<rparr>)"
  by (simp add: next_generation_def range1_def)

lemma upto_3: "[i - 1..i + 1] = [i - 1, i, i + 1]" for i :: int
  by (simp add: upto_rec1[of "i - 1"] upto_rec1[of i] upto_rec1[of "i + 1"])

lemma next_generation_lookup:
  assumes "Rule_init draw number_opt n = Inr r"
    and "0 < ca_size a" "int (length (cells a)) = ca_size a" "set (cells a) \<subseteq> {0, 1}"
  shows "\<exists>next_cells.
           next_generation r a = Inr (a\<lparr>cells := next_cells\<rparr>) \<and>
           length next_cells = length (cells a) \<and>
           (\<forall>i < length (cells a).
              interval_cells a (int n div 2) (int i) =
                Inr (map (\<lambda>k. cells a ! nat (k mod ca_size a))
                       [int i - int n div 2..int i + int n div 2]) \<and>
              get_next_cell r (map (\<lambda>k. cells a ! nat (k mod ca_size a))
                                 [int i - int n div 2..int i + int n div 2]) = Inr (next_cells ! i) \<and>
              map_of (rule_mapping r) (map (\<lambda>k. cells a ! nat (k mod ca_size a))
                                         [int i - int n div 2..int i + int n div 2]) =
                Some (next_cells ! i))"
proof -
  note D = Rule_init_Inr_D[OF assms(1)]
  let ?S = "ca_size a"
  let ?m = "int n div 2"
  let ?w = "\<lambda>i. map (\<lambda>k. cells a ! nat (k mod ?S)) [i - ?m..i + ?m]"
  let ?f = "\<lambda>i. (rule_number r div 2 ^ (2 ^ n - 1 - nat (bits_value (?w i)))) mod 2"
  let ?next = "map ?f (range1 ?S)"
  have ng: "next_generation r a = Inr (a\<lparr>cells := ?next\<rparr>)"
    by (rule next_generation_ring[OF assms])
  have len: "length ?next = length (cells a)"
    using assms(3) by (simp add: range1_def)
  have nth: "?next ! i = ?f (int i)" if "i < length (cells a)" for i
    using that assms(3) by (simp add: range1_def)
  have cell: "interval_cells a ?m (int i) = Inr (?w (int i)) \<and>
              get_next_cell r (?w (int i)) = Inr (?next ! i) \<and>
              map_of (rule_mapping r) (?w (int i)) = Some (?next ! i)"
    if i: "i < length (cells a)" for i
  proof -
    have wl: "length (?w (int i)) = n" using window_length[OF D(2), of "int i"] by simp
    have "cells a ! nat (k mod ?S) \<in> set (cells a)" for k
    proof -
      have "0 \<le> k mod ?S" "k mod ?S < int (length (cells a))" using assms(2,3) by simp_all
      then show ?thesis by (intro nth_mem) linarith
    qed
    then have bin: "set (?w (int i)) \<subseteq> {0, 1}" using assms(4) by auto
    have look: "map_of (rule_mapping r) (?w (int i)) = Some (?f (int i))"
      by (rule rule_lookup_binary[OF assms(1) wl bin])
    then have "get_next_cell r (?w (int i)) = Inr (?f (int i))"
      using wl by (simp add: get_next_cell_def D(1))
    then show ?thesis
      using look interval_cells_ring[OF assms(2,3)] by (simp only: nth[OF i] simp_thms)
  qed
  show ?thesis
    using ng len cell by blast
qed

lemma next_generation_well_formed:
  assumes r: "Rule_init draw number_opt n = Inr r" and a: "well_formed a"
  shows "\<exists>a'. next_generation r a = Inr a' \<and> well_formed a' \<and> ca_size a' = ca_size a \<and>
              length (cells a') = length (cells a) \<and>
              set (cells a') \<subseteq> ran (map_of (rule_mapping r))"
proof (cases "0 < ca_size a")
  case False
  then have e: "cells a = []" using a by (cases "cells a") (auto simp: well_formed_def)
  have "next_generation r a = Inr (a\<lparr>cells := []\<rparr>)"
    using False by (intro next_generation_empty) simp
  then show ?thesis using a e by (simp add: well_formed_def)
next
  case True
  from a have l: "int (length (cells a)) = ca_size a" and b: "set (cells a) \<subseteq> {0, 1}"
    by (simp_all add: well_formed_def)
  obtain cs where ng: "next_generation r a = Inr (a\<lparr>cells := cs\<rparr>)"
    and len: "length cs = length (cells a)"
    and look: "\<And>i. i < length (cells a) \<Longrightarrow>
         map_of (rule_mapping r) (map (\<lambda>k. cells a ! nat (k mod ca_size a))
                                    [int i - int n div 2..int i + int n div 2]) = Some (cs ! i)"
    using next_generation_lookup[OF r True l b] by blast
  have ran: "set cs \<subseteq> ran (map_of (rule_mapping r))"
  proof
    fix x assume "x \<in> set cs"
    then obtain i where "i < length cs" "x = cs ! i" by (auto simp: in_set_conv_nth)
    then show "x \<in> ran (map_of (rule_mapping r))"
      using look[of i] len by (auto intro: ranI)
  qed
  have "ran (map_of (rule_mapping r)) \<subseteq> {0, 1}"
    using rule_mapping_range[OF r] by (auto simp: ran_def)
  then have "well_formed (a\<lparr>cells := cs\<rparr>)"
    using ran len l by (auto simp: well_formed_def)
  then show ?thesis using ng len ran by simp
qed

text \<open>
  C1. For an automaton with size \<open>S > 0\<close> and \<open>S\<close> binary cells, and a constructed rule
  (odd \<open>n\<close>, margin \<open>n div 2\<close>), \<^verbatim>\<open>next_generation\<close> succeeds and replaces the cells by a
  list of the same length whose entry \<open>i\<close> is the rule's mapping applied to the tuple
  of the old cells at the indices \<open>i - margin, \<dots>, i + margin\<close>, each taken modulo \<open>S\<close>:
  every new cell is a function of the old list only. For \<open>n = 3\<close> the tuple read for
  position 0 starts with cell \<open>S - 1\<close> and the tuple read for position \<open>S - 1\<close> ends with
  cell 0.
\<close>

theorem next_generation_simultaneous_ring:
  assumes "Rule_init draw number_opt n = Inr r"
    and "0 < ca_size a" "int (length (cells a)) = ca_size a" "set (cells a) \<subseteq> {0, 1}"
  shows "\<exists>next_cells.
           next_generation r a = Inr (a\<lparr>cells := next_cells\<rparr>) \<and>
           length next_cells = length (cells a) \<and>
           (\<forall>i < length (cells a).
              interval_cells a (int n div 2) (int i) =
                Inr (map (\<lambda>k. cells a ! nat (k mod ca_size a))
                       [int i - int n div 2..int i + int n div 2]) \<and>
              get_next_cell r (map (\<lambda>k. cells a ! nat (k mod ca_size a))
                                 [int i - int n div 2..int i + int n div 2]) = Inr (next_cells ! i) \<and>
              map_of (rule_mapping r) (map (\<lambda>k. cells a ! nat (k mod ca_size a))
                                         [int i - int n div 2..int i + int n div 2]) =
                Some (next_cells ! i)) \<and>
           (n = 3 \<longrightarrow>
              interval_cells a (int n div 2) 0 =
                Inr [cells a ! nat (ca_size a - 1), cells a ! 0, cells a ! nat (1 mod ca_size a)] \<and>
              interval_cells a (int n div 2) (ca_size a - 1) =
                Inr [cells a ! nat ((ca_size a - 2) mod ca_size a), cells a ! nat (ca_size a - 1),
                     cells a ! 0])"
proof -
  let ?S = "ca_size a"
  let ?m = "int n div 2"
  have wrap: "interval_cells a ?m 0 =
                Inr [cells a ! nat (?S - 1), cells a ! 0, cells a ! nat (1 mod ?S)] \<and>
              interval_cells a ?m (?S - 1) =
                Inr [cells a ! nat ((?S - 2) mod ?S), cells a ! nat (?S - 1), cells a ! 0]"
    if "n = 3"
  proof -
    have m: "?m = 1" using that by simp
    have "(- 1) mod ?S = ?S - 1" using assms(2) by (rule zmod_minus1)
    moreover have "(?S - 1) mod ?S = ?S - 1" using assms(2) by (intro mod_pos_pos_trivial) auto
    ultimately show ?thesis
      using upto_3[of 0] upto_3[of "?S - 1"]
      by (simp add: interval_cells_ring[OF assms(2,3)] m)
  qed
  show ?thesis
    using next_generation_lookup[OF assms] wrap by blast
qed

theorem next_generation_simultaneous_ring_witness:
  "Rule_init 0 (Some 60) 3 = Inr rule60 \<and>
   0 < ca_size \<lparr>ca_size = 4, cells = [1, 0, 0, 0]\<rparr> \<and>
   int (length (cells \<lparr>ca_size = 4, cells = [1, 0, 0, 0]\<rparr>)) = ca_size \<lparr>ca_size = 4, cells = [1, 0, 0, 0]\<rparr> \<and>
   set (cells \<lparr>ca_size = 4, cells = [1, 0, 0, 0]\<rparr>) \<subseteq> {0, 1} \<and>
   next_generation rule60 \<lparr>ca_size = 4, cells = [1, 0, 0, 0]\<rparr> = Inr \<lparr>ca_size = 4, cells = [1, 1, 0, 0]\<rparr> \<and>
   interval_cells \<lparr>ca_size = 4, cells = [1, 0, 0, 0]\<rparr> 1 0 = Inr [0, 1, 0] \<and>
   interval_cells \<lparr>ca_size = 4, cells = [1, 0, 0, 0]\<rparr> 1 3 = Inr [0, 0, 1]"
proof -
  have 1: "next_generation rule60 \<lparr>ca_size = 4, cells = [1, 0, 0, 0]\<rparr> = Inr \<lparr>ca_size = 4, cells = [1, 1, 0, 0]\<rparr>"
    unfolding rule60_def by code_simp
  have 2: "interval_cells \<lparr>ca_size = 4, cells = [1, 0, 0, 0]\<rparr> 1 0 = Inr [0, 1, 0]"
    "interval_cells \<lparr>ca_size = 4, cells = [1, 0, 0, 0]\<rparr> 1 3 = Inr [0, 0, 1]"
    by code_simp+
  show ?thesis
    using next_generation_simultaneous_ring[OF Rule_init_60, where a = "\<lparr>ca_size = 4, cells = [1, 0, 0, 0]\<rparr>"]
    by (simp add: 1 2 Rule_init_60)
qed

text \<open>
  C7. For an automaton with size \<open>S > 0\<close>: \<^verbatim>\<open>init_single()\<close> leaves \<open>S\<close> cells, a 1 at
  index \<open>S div 2\<close> and 0 elsewhere; \<^verbatim>\<open>init_single(p)\<close> with \<open>0 \<le> p < S\<close> leaves \<open>S\<close> cells,
  a 1 at index \<open>p\<close> and 0 elsewhere; \<^verbatim>\<open>init_single(p)\<close> with an integer \<open>p\<close> outside
  \<open>[0, S)\<close> raises \<^verbatim>\<open>AssertionError\<close>.
\<close>

theorem init_single_seed:
  assumes "0 < ca_size a"
  shows "(\<exists>cs. init_single None a = (None, a\<lparr>cells := cs\<rparr>) \<and> int (length cs) = ca_size a \<and>
               (\<forall>i < length cs. cs ! i = (if int i = ca_size a div 2 then 1 else 0))) \<and>
         (\<forall>p. 0 \<le> p \<and> p < ca_size a \<longrightarrow>
               (\<exists>cs. init_single (Some p) a = (None, a\<lparr>cells := cs\<rparr>) \<and> int (length cs) = ca_size a \<and>
                     (\<forall>i < length cs. cs ! i = (if int i = p then 1 else 0)))) \<and>
         (\<forall>p. \<not> (0 \<le> p \<and> p < ca_size a) \<longrightarrow> fst (init_single (Some p) a) = Some AssertionError)"
proof -
  let ?z = "replicate (nat (ca_size a)) (0::int)"
  have seed: "\<exists>cs. init_single q a = (None, a\<lparr>cells := cs\<rparr>) \<and> int (length cs) = ca_size a \<and>
               (\<forall>i < length cs. cs ! i = (if int i = p then 1 else 0))"
    if p: "0 \<le> p" "p < ca_size a" and q: "q = Some p \<or> (q = None \<and> p = ca_size a div 2)" for p q
  proof -
    let ?cs = "?z[nat p := 1]"
    have "setitem ?z p 1 = Inr ?cs" using p by (intro setitem_in_range) auto
    then have "init_single q a = (None, a\<lparr>cells := ?cs\<rparr>)"
      using p q by (auto simp: init_single_def)
    moreover have "int (length ?cs) = ca_size a" using assms by simp
    moreover have "?cs ! i = (if int i = p then 1 else 0)" if "i < length ?cs" for i
      using that p by (auto simp: nth_list_update)
    ultimately show ?thesis by blast
  qed
  have mid: "0 \<le> ca_size a div 2" "ca_size a div 2 < ca_size a" using assms by auto
  have "fst (init_single (Some p) a) = Some AssertionError" if "\<not> (0 \<le> p \<and> p < ca_size a)" for p
    using that by (simp add: init_single_def)
  then show ?thesis using seed[OF mid, of None] seed[of _ "Some _"] by blast
qed

theorem init_single_seed_witness:
  "0 < ca_size \<lparr>ca_size = 5, cells = [1, 1, 1, 1, 1]\<rparr> \<and>
   init_single None \<lparr>ca_size = 5, cells = [1, 1, 1, 1, 1]\<rparr> = (None, \<lparr>ca_size = 5, cells = [0, 0, 1, 0, 0]\<rparr>) \<and>
   init_single (Some 0) \<lparr>ca_size = 5, cells = [1, 1, 1, 1, 1]\<rparr> = (None, \<lparr>ca_size = 5, cells = [1, 0, 0, 0, 0]\<rparr>) \<and>
   fst (init_single (Some 5) \<lparr>ca_size = 5, cells = [1, 1, 1, 1, 1]\<rparr>) = Some AssertionError \<and>
   fst (init_single (Some (- 1)) \<lparr>ca_size = 5, cells = [1, 1, 1, 1, 1]\<rparr>) = Some AssertionError"
proof -
  have "init_single None \<lparr>ca_size = 5, cells = [1, 1, 1, 1, 1]\<rparr> = (None, \<lparr>ca_size = 5, cells = [0, 0, 1, 0, 0]\<rparr>)"
    "init_single (Some 0) \<lparr>ca_size = 5, cells = [1, 1, 1, 1, 1]\<rparr> = (None, \<lparr>ca_size = 5, cells = [1, 0, 0, 0, 0]\<rparr>)"
    by code_simp+
  then show ?thesis
    using init_single_seed[of "\<lparr>ca_size = 5, cells = [1, 1, 1, 1, 1]\<rparr>"]
    by simp
qed

text \<open>
  C8. When the rule's mapping sends the all-zero tuple of length \<open>n\<close> to 0 (\<open>n\<close> odd, as
  in every constructed rule), \<^verbatim>\<open>next_generation\<close> on an automaton whose cells are all
  0 succeeds and leaves the automaton as it is.
\<close>

theorem all_zero_fixed_point:
  assumes "odd (rule_n r)" "map_of (rule_mapping r) (replicate (rule_n r) 0) = Some 0"
    and "cells a = replicate (nat (ca_size a)) 0"
  shows "next_generation r a = Inr a"
proof (cases "0 < ca_size a")
  case False
  then have "cells a = []" using assms(3) by simp
  moreover have "next_generation r a = Inr (a\<lparr>cells := []\<rparr>)"
    using False by (intro next_generation_empty) simp
  ultimately show ?thesis by simp
next
  case True
  let ?m = "int (rule_n r) div 2"
  have len: "int (length (cells a)) = ca_size a" using True assms(3) by simp
  have step: "\<exists>ic. interval_cells a ?m i = Inr ic \<and> get_next_cell r ic = Inr ((\<lambda>_. 0) i)" for i
  proof -
    have "cells a ! nat (k mod ca_size a) = 0" for k
    proof -
      have "0 \<le> k mod ca_size a" "k mod ca_size a < ca_size a" using True by simp_all
      then have "nat (k mod ca_size a) < nat (ca_size a)" by linarith
      then show ?thesis by (subst assms(3)) simp
    qed
    then have "map (\<lambda>k. cells a ! nat (k mod ca_size a)) [i - ?m..i + ?m]
               = replicate (length [i - ?m..i + ?m]) 0"
      by (simp add: map_replicate_const)
    also have "\<dots> = replicate (rule_n r) 0"
      using window_length[OF assms(1), of i] by simp
    finally have "interval_cells a ?m i = Inr (replicate (rule_n r) 0)"
      using interval_cells_ring[OF True len] by simp
    moreover have "get_next_cell r (replicate (rule_n r) 0) = Inr 0"
      using assms(2) by (simp add: get_next_cell_def)
    ultimately show ?thesis by blast
  qed
  have "next_generation_loop r a ?m (range1 (ca_size a)) [] = Inr ([] @ map (\<lambda>_. 0) (range1 (ca_size a)))"
    by (rule next_generation_loop_map) (rule step)
  moreover have "map (\<lambda>_. 0::int) (range1 (ca_size a)) = cells a"
    by (subst assms(3)) (simp add: range1_def map_replicate_const)
  ultimately show ?thesis by (simp add: next_generation_def)
qed

theorem all_zero_fixed_point_witness:
  "odd (rule_n rule60) \<and> map_of (rule_mapping rule60) (replicate (rule_n rule60) 0) = Some 0 \<and>
   cells (CellularAutomata_init 4) = replicate (nat (ca_size (CellularAutomata_init 4))) 0 \<and>
   CellularAutomata_init 4 = \<lparr>ca_size = 4, cells = [0, 0, 0, 0]\<rparr> \<and>
   next_generation rule60 \<lparr>ca_size = 4, cells = [0, 0, 0, 0]\<rparr> = Inr \<lparr>ca_size = 4, cells = [0, 0, 0, 0]\<rparr>"
proof -
  have c: "CellularAutomata_init 4 = \<lparr>ca_size = 4, cells = [0, 0, 0, 0]\<rparr>" by code_simp
  have h: "odd (rule_n rule60)" "map_of (rule_mapping rule60) (replicate (rule_n rule60) 0) = Some 0"
    "cells (CellularAutomata_init 4) = replicate (nat (ca_size (CellularAutomata_init 4))) 0"
    by (simp add: rule60_def, code_simp, code_simp)
  show ?thesis
    using all_zero_fixed_point[OF h] h by (simp add: c)
qed

text \<open>
  C9. Assigning a positive integer \<open>v\<close> to \<^verbatim>\<open>size\<close> sets the size to \<open>v\<close> and the cells
  to exactly \<open>v\<close> zeros, whatever the cells were before.
\<close>

theorem set_size_resets:
  assumes "0 < v"
  shows "set_size v a = \<lparr>ca_size = v, cells = replicate (nat v) 0\<rparr> \<and>
         ca_size (set_size v a) = v \<and> int (length (cells (set_size v a))) = v \<and>
         (\<forall>i < length (cells (set_size v a)). cells (set_size v a) ! i = 0)"
  using assms by (simp add: set_size_def init_zeroes_def)

theorem set_size_resets_witness:
  "(0::int) < 3 \<and> set_size 3 \<lparr>ca_size = 2, cells = [1, 1]\<rparr> = \<lparr>ca_size = 3, cells = [0, 0, 0]\<rparr>"
  using set_size_resets[of 3 "\<lparr>ca_size = 2, cells = [1, 1]\<rparr>"]
  by (simp add: numeral_3_eq_3)

text \<open>
  C10, as stated, fails for a negative size: \<^verbatim>\<open>CellularAutomata(size=-1)\<close> has size
  \<open>-1\<close> and no cells, since \<^verbatim>\<open>[0] * -1\<close> is the empty list.
\<close>

theorem negative_size_cells_empty:
  "ca_size (CellularAutomata_init (- 1)) = - 1 \<and> cells (CellularAutomata_init (- 1)) = [] \<and>
   int (length (cells (CellularAutomata_init (- 1)))) \<noteq> ca_size (CellularAutomata_init (- 1))"
  by (simp add: CellularAutomata_init_def init_zeroes_def)

text \<open>
  C10, amended. For a size \<open>sz \<ge> 0\<close>: construction, \<^verbatim>\<open>init_zeroes\<close>, \<^verbatim>\<open>init_single\<close>
  (whether it raises or not), \<^verbatim>\<open>randomize\<close>, and \<^verbatim>\<open>next_generation\<close> with a
  constructed rule on an automaton of exactly \<open>sz\<close> binary cells, each leave the size
  unchanged and the cells a list of exactly \<open>sz\<close> elements, each 0 or 1;
  \<^verbatim>\<open>next_generation\<close> keeps the length of the list and writes only values that the
  rule's mapping contains, which are 0 or 1.
\<close>

theorem operations_keep_cells_well_formed:
  assumes "0 \<le> sz" "ca_size a = sz"
  shows "well_formed (CellularAutomata_init sz) \<and> ca_size (CellularAutomata_init sz) = sz \<and>
         well_formed (init_zeroes a) \<and> ca_size (init_zeroes a) = sz \<and>
         well_formed (snd (init_single pos a)) \<and> ca_size (snd (init_single pos a)) = sz \<and>
         well_formed (randomize rnd a) \<and> ca_size (randomize rnd a) = sz \<and>
         (\<forall>draw number_opt n r. Rule_init draw number_opt n = Inr r \<and> well_formed a \<longrightarrow>
            (\<exists>a'. next_generation r a = Inr a' \<and> well_formed a' \<and> ca_size a' = sz \<and>
                  length (cells a') = length (cells a) \<and>
                  set (cells a') \<subseteq> ran (map_of (rule_mapping r)) \<and>
                  ran (map_of (rule_mapping r)) \<subseteq> {0, 1}))"
proof -
  have 1: "well_formed (CellularAutomata_init sz) \<and> ca_size (CellularAutomata_init sz) = sz"
    using assms(1) by (auto simp: well_formed_def CellularAutomata_init_def init_zeroes_def)
  have 2: "well_formed (init_zeroes a) \<and> ca_size (init_zeroes a) = sz"
    using assms by (auto simp: well_formed_def init_zeroes_def)
  have 3: "well_formed (snd (init_single pos a)) \<and> ca_size (snd (init_single pos a)) = sz"
    using assms
    by (auto simp: well_formed_def init_single_def setitem_def Let_def
          split: option.splits sum.splits if_splits dest!: set_update_subset_insert[THEN subsetD])
  have 4: "well_formed (randomize rnd a) \<and> ca_size (randomize rnd a) = sz"
    using assms by (auto simp: well_formed_def randomize_def)
  have 5: "\<exists>a'. next_generation r a = Inr a' \<and> well_formed a' \<and> ca_size a' = sz \<and>
                  length (cells a') = length (cells a) \<and>
                  set (cells a') \<subseteq> ran (map_of (rule_mapping r)) \<and>
                  ran (map_of (rule_mapping r)) \<subseteq> {0, 1}"
    if "Rule_init draw number_opt n = Inr r \<and> well_formed a" for draw number_opt n r
  proof -
    have "ran (map_of (rule_mapping r)) \<subseteq> {0, 1}"
      using rule_mapping_range[of draw number_opt n r] that by (auto simp: ran_def)
    then show ?thesis
      using next_generation_well_formed[of draw number_opt n r a] that assms(2) by auto
  qed
  show ?thesis using 1 2 3 4 5 by blast
qed

theorem operations_keep_cells_well_formed_witness:
  "(0::int) \<le> 4 \<and> ca_size \<lparr>ca_size = 4, cells = [1, 0, 0, 0]\<rparr> = 4 \<and>
   well_formed (CellularAutomata_init 4) \<and>
   well_formed (init_zeroes \<lparr>ca_size = 4, cells = [1, 0, 0, 0]\<rparr>) \<and>
   well_formed (snd (init_single (Some 7) \<lparr>ca_size = 4, cells = [1, 0, 0, 0]\<rparr>)) \<and>
   well_formed (randomize even \<lparr>ca_size = 4, cells = [1, 0, 0, 0]\<rparr>) \<and>
   Rule_init 0 (Some 60) 3 = Inr rule60 \<and> well_formed \<lparr>ca_size = 4, cells = [1, 0, 0, 0]\<rparr> \<and>
   next_generation rule60 \<lparr>ca_size = 4, cells = [1, 0, 0, 0]\<rparr> = Inr \<lparr>ca_size = 4, cells = [1, 1, 0, 0]\<rparr> \<and>
   well_formed \<lparr>ca_size = 4, cells = [1, 1, 0, 0]\<rparr>"
proof -
  have n: "next_generation rule60 \<lparr>ca_size = 4, cells = [1, 0, 0, 0]\<rparr> = Inr \<lparr>ca_size = 4, cells = [1, 1, 0, 0]\<rparr>"
    unfolding rule60_def by code_simp
  have w: "well_formed \<lparr>ca_size = 4, cells = [1, 0, 0, 0]\<rparr>" by (simp add: well_formed_def)
  have w': "well_formed \<lparr>ca_size = 4, cells = [1, 1, 0, 0]\<rparr>" by (simp add: well_formed_def)
  show ?thesis
    using operations_keep_cells_well_formed[of 4 "\<lparr>ca_size = 4, cells = [1, 0, 0, 0]\<rparr>" "Some 7" even]
      Rule_init_60[of 0] w w' n
    by simp
qed

section \<open>The driving loop\<close>

lemma str_automaton_binary:
  "set (cells a) \<subseteq> {0, 1} \<Longrightarrow>
     str_automaton a = Inr (map (\<lambda>c. if c = 0 then CHR '' '' else CHR ''#'') (cells a))"
  unfolding str_automaton_def by (intro map_result_Inr) (auto simp: SYMBOLS_def)

lemma generations_well_formed:
  assumes "Rule_init draw number_opt n = Inr r" "well_formed a"
  shows "\<exists>a'. generations r k a = Inr a' \<and> well_formed a'"
  using assms(2)
proof (induction k arbitrary: a)
  case 0 then show ?case by simp
next
  case (Suc k)
  obtain a1 where "next_generation r a = Inr a1" "well_formed a1"
    using next_generation_well_formed[OF assms(1) Suc.prems] by blast
  then show ?case using Suc.IH[of a1] by simp
qed

lemma run_loop_positive:
  assumes r: "Rule_init draw number_opt n = Inr r"
    and L: "0 < L" "0 \<le> it" "it \<le> L" "k = nat (L - it)" and a: "well_formed a"
  shows "\<exists>a' lines. run_loop r L it a out = Some (Inr (a', out @ lines, L + 1)) \<and>
           generations r (Suc k) a = Inr a' \<and> length lines = Suc k"
  using L(2-4) a
proof (induction k arbitrary: it a out)
  case 0
  then have it: "it = L" by simp
  obtain a1 where a1: "next_generation r a = Inr a1"
    using next_generation_well_formed[OF r "0.prems"(4)] by blast
  obtain line where line: "str_automaton a = Inr line"
    using str_automaton_binary[of a] "0.prems"(4) by (auto simp: well_formed_def)
  have "run_loop r L it a out = Some (Inr (a1, out @ [line], L + 1))"
    using L(1) by (subst run_loop.simps) (simp add: a1 line it)
  then show ?case using a1 by (intro exI[of _ a1] exI[of _ "[line]"]) simp
next
  case (Suc k)
  then have it: "it < L" "0 \<le> it + 1" "it + 1 \<le> L" "k = nat (L - (it + 1))" by auto
  obtain a1 where a1: "next_generation r a = Inr a1" and w1: "well_formed a1"
    using next_generation_well_formed[OF r Suc.prems(4)] by blast
  obtain line where line: "str_automaton a = Inr line"
    using str_automaton_binary[of a] Suc.prems(4) by (auto simp: well_formed_def)
  obtain a' lines where rec: "run_loop r L (it + 1) a1 (out @ [line]) = Some (Inr (a', (out @ [line]) @ lines, L + 1))"
    and g: "generations r (Suc k) a1 = Inr a'" and len: "length lines = Suc k"
    using Suc.IH[OF it(2,3,4) w1] by blast
  have "run_loop r L it a out = run_loop r L (it + 1) a1 (out @ [line])"
    using it(1) by (subst run_loop.simps) (simp add: a1 line)
  then have "run_loop r L it a out = Some (Inr (a', out @ (line # lines), L + 1))"
    using rec by simp
  moreover have "generations r (Suc (Suc k)) a = Inr a'" using a1 g by simp
  ultimately show ?case using len by (intro exI[of _ a'] exI[of _ "line # lines"]) simp
qed

lemma run_loop_nonpositive:
  assumes r: "Rule_init draw number_opt n = Inr r" and L: "L \<le> 0" and a: "well_formed a"
  shows "run_loop r L it a out = None"
proof (rule ccontr)
  assume "run_loop r L it a out \<noteq> None"
  then obtain y where y: "run_loop r L it a out = Some y" by auto
  have "\<not> (Rule_init draw number_opt n = Inr r \<and> L \<le> 0 \<and> well_formed a)"
  proof (rule run_loop.raw_induct
      [where P = "\<lambda>r L it a out y. \<not> (Rule_init draw number_opt n = Inr r \<and> L \<le> 0 \<and> well_formed a)",
        OF _ y], goal_cases)
    case (1 f r L it a out y)
    show ?case
    proof
      assume pre: "Rule_init draw number_opt n = Inr r \<and> L \<le> 0 \<and> well_formed a"
      then obtain a1 where a1: "next_generation r a = Inr a1" and w1: "well_formed a1"
        using next_generation_well_formed[of draw number_opt n r a] by blast
      obtain line where line: "str_automaton a = Inr line"
        using str_automaton_binary[of a] pre by (auto simp: well_formed_def)
      have "f r L (it + 1) a1 (out @ [line]) = Some y"
        using 1(2) pre by (simp add: a1 line)
      from 1(1)[OF this] show False using pre w1 by simp
    qed
  qed
  then show False using assms by simp
qed

lemma run_positive_limit:
  assumes "Rule_init draw number_opt n = Inr r" "well_formed a" "0 < L"
  shows "\<exists>a' lines. run r (Some L) a = Some (Inr (a', lines, L + 1)) \<and>
           generations r (nat L + 1) a = Inr a' \<and> length lines = nat L + 1"
  using run_loop_positive[OF assms(1,3) _ _ _ assms(2), of 0 "nat L" "[]"] assms(3)
  by (simp add: run_def)

lemma run_nonpositive_limit:
  assumes "Rule_init draw number_opt n = Inr r" "well_formed a" "L \<le> 0"
  shows "run r (Some L) a = None"
  using run_loop_nonpositive[OF assms(1,3,2)] by (simp add: run_def)

lemma run_default_limit: "run r None a = run r (Some (ca_size a div 2)) a"
  by (simp add: run_def)

lemma rule60_generations:
  "next_generation rule60 \<lparr>ca_size = 4, cells = [1, 0, 0, 0]\<rparr> = Inr \<lparr>ca_size = 4, cells = [1, 1, 0, 0]\<rparr>"
  "next_generation rule60 \<lparr>ca_size = 4, cells = [1, 1, 0, 0]\<rparr> = Inr \<lparr>ca_size = 4, cells = [1, 0, 1, 0]\<rparr>"
  "str_automaton \<lparr>ca_size = 4, cells = [1, 0, 0, 0]\<rparr> = Inr ''#   ''"
  "str_automaton \<lparr>ca_size = 4, cells = [1, 1, 0, 0]\<rparr> = Inr ''##  ''"
  unfolding rule60_def by code_simp+

text \<open>
  C3 (\<^verbatim>\<open>run\<close> stops after exactly \<open>iteration_limit\<close> advances when the limit is
  positive). The source leaves the loop when \<^verbatim>\<open>iteration > iteration_limit\<close>, so it
  prints and advances \<open>iteration_limit + 1\<close> times (lemma \<open>run_positive_limit\<close>). With
  rule 60, four cells seeded at position 0 and \<^verbatim>\<open>iteration_limit=1\<close>, the call prints
  two lines and ends with the counter at 2 and the cells of the second generation,
  not of the first. The rest of the claim holds: an omitted limit is \<^verbatim>\<open>size // 2\<close>
  (\<open>run_default_limit\<close>) and with a limit \<open>\<le> 0\<close> the loop never ends
  (\<open>run_nonpositive_limit\<close>).
\<close>

theorem run_limit_one_advances_twice:
  "run rule60 (Some 1) \<lparr>ca_size = 4, cells = [1, 0, 0, 0]\<rparr> =
     Some (Inr (\<lparr>ca_size = 4, cells = [1, 0, 1, 0]\<rparr>, [''#   '', ''##  ''], 2)) \<and>
   generations rule60 1 \<lparr>ca_size = 4, cells = [1, 0, 0, 0]\<rparr> = Inr \<lparr>ca_size = 4, cells = [1, 1, 0, 0]\<rparr> \<and>
   generations rule60 2 \<lparr>ca_size = 4, cells = [1, 0, 0, 0]\<rparr> = Inr \<lparr>ca_size = 4, cells = [1, 0, 1, 0]\<rparr>"
proof -
  have "run_loop rule60 1 1 \<lparr>ca_size = 4, cells = [1, 1, 0, 0]\<rparr> [''#   ''] =
          Some (Inr (\<lparr>ca_size = 4, cells = [1, 0, 1, 0]\<rparr>, [''#   '', ''##  ''], 2))"
    by (subst run_loop.simps) (simp add: rule60_generations)
  then have "run_loop rule60 1 0 \<lparr>ca_size = 4, cells = [1, 0, 0, 0]\<rparr> [] =
          Some (Inr (\<lparr>ca_size = 4, cells = [1, 0, 1, 0]\<rparr>, [''#   '', ''##  ''], 2))"
    by (subst run_loop.simps) (simp add: rule60_generations)
  then show ?thesis
    by (simp add: run_def rule60_generations numeral_2_eq_2)
qed

end
